theory Spec2Isabelle
  imports Main "HOL-Library.Word" "HOL-Library.Signed_Division" "HOL-Library.Multiset"
begin

section \<open>The analytics package of ponzu: system/api/analytics/init.go\<close>

text \<open>
  The package records API requests (\<open>Record\<close>) and charts two weeks of them by day
  (\<open>ChartData\<close>).  Both functions read the clock and \<open>ChartData\<close> reads the bolt store;
  the model passes what they read as arguments.  The Go standard library (\<open>time\<close>,
  \<open>strings\<close>, \<open>encoding/json\<close>, \<open>log\<close>) and bolt are not part of the repository:
  \<open>time\<close> and \<open>strings\<close> are modelled from their documentation, the two
  \<open>encoding/json\<close> calls are parameters of the model, and the store is the list of
  entries that \<open>ForEach\<close> visits.
\<close>

subsection \<open>Go's \<open>time\<close> package, as far as the source uses it\<close>

text \<open>
  A \<open>time.Time\<close> is an instant together with a location.  The instant is kept as its
  Unix second count (\<open>sec\<close>): of \<open>now\<close> the source reads the date only, and every Time it
  compares or formats has no nanoseconds (\<open>today\<close> is built with none, the boundaries
  are whole hours away from it, a request's instant is \<open>time.Unix(s, 0)\<close>).  The
  location is kept as the zone offset in seconds east of UTC that applies at that instant
  (\<open>offset\<close>): \<open>time.Now()\<close> returns a Time in the process's local zone, whatever that is.
\<close>

record Time =
  sec :: int
  offset :: int

text \<open>
  The proleptic Gregorian calendar.  \<open>civil_from_days n\<close> is the date (year, month, day)
  of day \<open>n\<close>, counted from 1970-01-01.  The count is shifted to start on 0000-03-01, so
  that a leap day is the last day of its (March-based) year, and then split into
  400-year, 100-year, 4-year and 1-year cycles.  The last 100-year cycle and the last
  year of a 4-year cycle are one day longer, so their quotients are cut off at 3.
\<close>

definition year_and_yday :: "int \<Rightarrow> int \<times> int" where
  "year_and_yday z =
     (let n400 = z div 146097;
          r = z mod 146097;
          n100 = min 3 (r div 36524);
          r1 = r - 36524 * n100;
          n4 = r1 div 1461;
          r2 = r1 mod 1461;
          n1 = min 3 (r2 div 365)
      in (400 * n400 + 100 * n100 + 4 * n4 + n1, r2 - 365 * n1))"

definition month_and_mday :: "int \<Rightarrow> int \<times> int" where
  "month_and_mday yday =
     (let mp = (5 * yday + 2) div 153
      in (if mp < 10 then mp + 3 else mp - 9, yday - (153 * mp + 2) div 5 + 1))"

definition civil_from_days :: "int \<Rightarrow> int \<times> int \<times> int" where
  "civil_from_days n =
     (let (y, yday) = year_and_yday (n + 719468);
          (m, d) = month_and_mday yday
      in (if m \<le> 2 then y + 1 else y, m, d))"

text \<open>
  The day count of a date, for months and days in their calendar ranges: the days before
  the March-based year, the days before the month in that year, the days before the day.
\<close>

definition days_before_year :: "int \<Rightarrow> int" where
  "days_before_year y = 365 * y + y div 4 - y div 100 + y div 400"

definition days_before_month :: "int \<Rightarrow> int" where
  "days_before_month m = (153 * (if m > 2 then m - 3 else m + 9) + 2) div 5"

definition days_from_civil :: "int \<Rightarrow> int \<Rightarrow> int \<Rightarrow> int" where
  "days_from_civil y m d =
     days_before_year (if m \<le> 2 then y - 1 else y) + days_before_month m + (d - 1) - 719468"

text \<open>\<open>t.Year()\<close>, \<open>t.Month()\<close>, \<open>t.Day()\<close>: the date of \<open>t\<close> in \<open>t\<close>'s own location.\<close>

definition local_day :: "Time \<Rightarrow> int" where
  "local_day t = (sec t + offset t) div 86400"

definition Year :: "Time \<Rightarrow> int" where
  "Year t = fst (civil_from_days (local_day t))"

definition Month :: "Time \<Rightarrow> int" where
  "Month t = fst (snd (civil_from_days (local_day t)))"

definition Day :: "Time \<Rightarrow> int" where
  "Day t = snd (snd (civil_from_days (local_day t)))"

text \<open>\<open>time.Date(y, m, d, 0, 0, 0, 0, time.UTC)\<close>: midnight UTC opening the given date.\<close>

definition time_Date_UTC :: "int \<Rightarrow> int \<Rightarrow> int \<Rightarrow> Time" where
  "time_Date_UTC y m d = \<lparr>sec = 86400 * days_from_civil y m d, offset = 0\<rparr>"

text \<open>\<open>t.Add(time.Hour * dur)\<close>: \<open>dur\<close> hours later, in the same location.\<close>

definition Add_hours :: "Time \<Rightarrow> int \<Rightarrow> Time" where
  "Add_hours t dur = t\<lparr>sec := sec t + 3600 * dur\<rparr>"

text \<open>\<open>time.Unix(s, 0)\<close>; it comes in the local zone, which only formatting would read.\<close>

definition time_Unix :: "int \<Rightarrow> Time" where
  "time_Unix s = \<lparr>sec = s, offset = 0\<rparr>"

text \<open>\<open>After\<close>, \<open>Equal\<close> and \<open>Before\<close> compare instants and ignore locations.\<close>

definition After :: "Time \<Rightarrow> Time \<Rightarrow> bool" where
  "After t u = (sec u < sec t)"

definition Equal :: "Time \<Rightarrow> Time \<Rightarrow> bool" where
  "Equal t u = (sec t = sec u)"

definition Before :: "Time \<Rightarrow> Time \<Rightarrow> bool" where
  "Before t u = (sec t < sec u)"

text \<open>\<open>t.Format("01/02")\<close>: two-digit month, a slash, two-digit day of the month.\<close>

definition digit :: "int \<Rightarrow> char" where
  "digit k = ''0123456789'' ! nat k"

definition pad2 :: "int \<Rightarrow> string" where
  "pad2 k = [digit (k div 10), digit (k mod 10)]"

definition Format_01_02 :: "Time \<Rightarrow> string" where
  "Format_01_02 t = pad2 (Month t) @ ''/'' @ pad2 (Day t)"

text \<open>The zero \<open>time.Time\<close>, 0001-01-01T00:00:00Z, which fills a fresh \<open>[14]time.Time\<close>.\<close>

definition zero_Time :: "Time" where
  "zero_Time = \<lparr>sec = - 62135596800, offset = 0\<rparr>"

subsection \<open>Go's \<open>strings.Contains\<close>\<close>

fun HasPrefix :: "string \<Rightarrow> string \<Rightarrow> bool" where
  "HasPrefix s [] = True"
| "HasPrefix [] (p # ps) = False"
| "HasPrefix (c # cs) (p # ps) = (c = p \<and> HasPrefix cs ps)"

fun Contains :: "string \<Rightarrow> string \<Rightarrow> bool" where
  "Contains [] substr = HasPrefix [] substr"
| "Contains (c # cs) substr = (HasPrefix (c # cs) substr \<or> Contains cs substr)"

subsection \<open>The request as \<open>Record\<close> reads it, and the record it queues\<close>

type_synonym int64 = "64 word"

record apiRequest =
  URL :: string
  Method :: string
  Origin :: string
  Proto :: string
  RemoteAddr :: string
  Timestamp :: int64
  External :: bool

text \<open>
  Of \<open>*http.Request\<close> the function reads \<open>URL.Path\<close>, \<open>URL.String()\<close>, \<open>Method\<close>,
  \<open>Header.Get("Origin")\<close>, \<open>Proto\<close> and \<open>RemoteAddr\<close>.  \<open>URL.String()\<close> reassembles the
  URL from its parts; the model keeps its result as a field.
\<close>

record http_Request =
  URL_Path :: string
  URL_String :: string
  req_Method :: string
  Header :: "string \<rightharpoonup> string list"
  req_Proto :: string
  req_RemoteAddr :: string

definition Header_Get :: "(string \<rightharpoonup> string list) \<Rightarrow> string \<Rightarrow> string" where
  "Header_Get h k = (case h k of None \<Rightarrow> [] | Some [] \<Rightarrow> [] | Some (v # _) \<Rightarrow> v)"

text \<open>
  \<open>Record\<close>, with the clock reading \<open>now\<close> of \<open>time.Now()\<close> and the contents of the
  buffered \<open>requestChan\<close>.  \<open>Unix() * 1000\<close> is an int64 product.  The send blocks while
  the channel is full; the model gives the channel once the send has happened.
\<close>

definition Record_r :: "Time \<Rightarrow> http_Request \<Rightarrow> apiRequest" where
  "Record_r now req =
     (let external = Contains (URL_Path req) ''/external/''
      in \<lparr>URL = URL_String req,
          Method = req_Method req,
          Origin = Header_Get (Header req) ''Origin'',
          Proto = req_Proto req,
          RemoteAddr = req_RemoteAddr req,
          Timestamp = word_of_int (sec now) * 1000,
          External = external\<rparr>)"

definition Record :: "Time \<Rightarrow> http_Request \<Rightarrow> apiRequest list \<Rightarrow> apiRequest list" where
  "Record now req requestChan = requestChan @ [Record_r now req]"

subsection \<open>The store and \<open>encoding/json\<close>\<close>

text \<open>
  \<open>Init\<close> has opened the bolt store and created the bucket \<open>requests\<close>.  A read
  transaction then either fails to begin, and \<open>store.View\<close> returns that error without
  calling its function, or \<open>ForEach\<close> visits the entries of the bucket in key order.
  Go errors are kept as their messages.
\<close>

type_synonym error = string
type_synonym bytes = string

record bolt_DB =
  view_err :: "error option"
  requests_bucket :: "(bytes \<times> bytes) list"

text \<open>What \<open>log.Println\<close> writes for an entry that does not decode (without the date prefix).\<close>

definition log_line :: "error \<Rightarrow> string" where
  "log_line err = ''Error decoding json from analytics db: '' @ err"

text \<open>
  The function handed to \<open>b.ForEach\<close>, run over the entries: \<open>json_Unmarshal\<close> decodes
  a value into a fresh \<open>apiRequest\<close> or fails.  The function returns nil in both cases, so
  \<open>ForEach\<close> visits every entry.  The state is the slice \<open>requests\<close> and the log.
\<close>

fun ForEach_requests ::
  "(bytes \<Rightarrow> error + apiRequest) \<Rightarrow> (bytes \<times> bytes) list \<Rightarrow>
   apiRequest list \<times> string list \<Rightarrow> apiRequest list \<times> string list" where
  "ForEach_requests json_Unmarshal [] (requests, logged) = (requests, logged)"
| "ForEach_requests json_Unmarshal ((k, v) # kvs) (requests, logged) =
     (case json_Unmarshal v of
        Inl err \<Rightarrow> ForEach_requests json_Unmarshal kvs (requests, logged @ [log_line err])
      | Inr r \<Rightarrow> ForEach_requests json_Unmarshal kvs (requests @ [r], logged))"

subsection \<open>\<open>ChartData\<close>\<close>

text \<open>
  The first loop fills \<open>times\<close> and \<open>dates\<close> from the back: iteration \<open>i\<close> writes the
  day \<open>24 * i\<close> hours before \<open>today\<close> at index \<open>len(times)-1-i\<close>.
\<close>

definition thresholds :: "Time \<Rightarrow> Time list \<times> string list" where
  "thresholds today =
     fold (\<lambda>i (times', dates).
             let dur = 24 * int i * - 1;
                 day = Add_hours today dur
             in (times'[length times' - 1 - i := day],
                 dates[length times' - 1 - i := Format_01_02 day]))
          [0..<14] (replicate 14 zero_Time, replicate 14 [])"

text \<open>
  The three arrays \<open>total\<close>, \<open>unique\<close> and \<open>ips\<close> of the second loop.  The counters are
  Go ints that only ever grow by one from zero; \<open>map[string]struct{}\<close> is a set of strings.
\<close>

record counters =
  total :: "nat list"
  unique :: "nat list"
  ips :: "string set list"

definition counters0 :: counters where
  "counters0 = \<lparr>total = replicate 14 0, unique = replicate 14 0, ips = replicate 14 {}\<rparr>"

text \<open>
  The record keeping that the loop body does in three places, at index \<open>j\<close>, \<open>j\<close> and
  \<open>j-1\<close>: count the request, and count its address if the day has not seen it.  An index
  outside an array is a run-time panic in Go: \<open>None\<close>.
\<close>

definition record_keeping :: "int \<Rightarrow> apiRequest \<Rightarrow> counters \<Rightarrow> counters option" where
  "record_keeping j r c =
     (if 0 \<le> j \<and> nat j < length (total c) \<and> nat j < length (unique c) \<and> nat j < length (ips c)
      then
        let k = nat j;
            c1 = c\<lparr>total := (total c)[k := total c ! k + 1]\<rparr>
        in if RemoteAddr r \<in> ips c ! k then Some c1
           else Some (c1\<lparr>unique := (unique c)[k := unique c ! k + 1],
                          ips := (ips c)[k := insert (RemoteAddr r) (ips c ! k)]\<rparr>)
      else None)"

text \<open>
  The inner loop \<open>for j := range times\<close> for one request with instant \<open>ts\<close>, over the
  indices still to visit.  \<open>continue CHECK_REQUEST\<close> leaves the inner loop: the function
  returns.  The third branch has no \<open>continue\<close> after its record keeping and goes on
  with the next \<open>j\<close>.
\<close>

fun check_request ::
  "Time list \<Rightarrow> Time \<Rightarrow> apiRequest \<Rightarrow> nat list \<Rightarrow> counters \<Rightarrow> counters option" where
  "check_request times' ts r [] c = Some c"
| "check_request times' ts r (j # js) c =
     (if j = length times' - 1 \<and> (After ts (times' ! j) \<or> Equal ts (times' ! j))
      then record_keeping (int j) r c
      else if Equal ts (times' ! j)
      then record_keeping (int j) r c
      else if Before ts (times' ! j)
      then (if j = 0 then Some c
            else case record_keeping (int j - 1) r c of
                   None \<Rightarrow> None
                 | Some c' \<Rightarrow> check_request times' ts r js c')
      else check_request times' ts r js c)"

text \<open>
  The outer loop over \<open>requests\<close>.  \<open>Timestamp/1000\<close> is int64 division, which truncates
  towards zero.
\<close>

definition ts_of :: "apiRequest \<Rightarrow> Time" where
  "ts_of r = time_Unix (sint (Timestamp r) sdiv 1000)"

fun CHECK_REQUEST :: "Time list \<Rightarrow> apiRequest list \<Rightarrow> counters \<Rightarrow> counters option" where
  "CHECK_REQUEST times' [] c = Some c"
| "CHECK_REQUEST times' (r # requests) c =
     (case check_request times' (ts_of r) r [0..<length times'] c of
        None \<Rightarrow> None
      | Some c' \<Rightarrow> CHECK_REQUEST times' requests c')"

text \<open>
  The returned map, with its five keys, and what a call gives back: the map or nil, the
  error or nil, and the lines logged on the way.
\<close>

record chart =
  chart_dates :: "string list"
  chart_unique :: string
  chart_total :: string
  chart_from :: string
  chart_to :: string

record report =
  result :: "chart option"
  err :: "error option"
  logged :: "string list"

text \<open>
  \<open>ChartData\<close>.  \<open>json_Marshal\<close> encodes a \<open>[14]int\<close>, \<open>json_Unmarshal\<close> decodes a stored
  value, \<open>now\<close> is what \<open>time.Now()\<close> returns and \<open>store\<close> is the database.  The value is
  \<open>None\<close> when the call panics.
\<close>

definition today_of :: "Time \<Rightarrow> Time" where
  "today_of now = time_Date_UTC (Year now) (Month now) (Day now)"

definition ChartData ::
  "(nat list \<Rightarrow> error + string) \<Rightarrow> (bytes \<Rightarrow> error + apiRequest) \<Rightarrow>
   Time \<Rightarrow> bolt_DB \<Rightarrow> report option" where
  "ChartData json_Marshal json_Unmarshal now store =
     (let today = today_of now;
          (times', dates) = thresholds today
      in case view_err store of
           Some e \<Rightarrow> Some \<lparr>result = None, err = Some e, logged = []\<rparr>
         | None \<Rightarrow>
            (let (requests, lg) =
                   ForEach_requests json_Unmarshal (requests_bucket store) ([], [])
             in case CHECK_REQUEST times' requests counters0 of
                  None \<Rightarrow> None
                | Some c \<Rightarrow>
                   (case json_Marshal (unique c) of
                      Inl e \<Rightarrow> Some \<lparr>result = None, err = Some e, logged = lg\<rparr>
                    | Inr jsUnique \<Rightarrow>
                       (case json_Marshal (total c) of
                          Inl e \<Rightarrow> Some \<lparr>result = None, err = Some e, logged = lg\<rparr>
                        | Inr jsTotal \<Rightarrow>
                           Some \<lparr>result = Some \<lparr>chart_dates = dates,
                                                 chart_unique = jsUnique,
                                                 chart_total = jsTotal,
                                                 chart_from = dates ! 0,
                                                 chart_to = dates ! (length dates - 1)\<rparr>,
                                 err = None, logged = lg\<rparr>))))"

subsection \<open>Stand-ins for \<open>encoding/json\<close>, to run the model\<close>

text \<open>
  \<open>json.Marshal\<close> of an array of ints gives the decimal numbers between brackets,
  separated by commas, and does not fail.
\<close>

fun decimal_digits :: "nat \<Rightarrow> nat \<Rightarrow> string" where
  "decimal_digits 0 n = []"
| "decimal_digits (Suc fuel) n =
     (if n < 10 then [digit (int n)]
      else decimal_digits fuel (n div 10) @ [digit (int (n mod 10))])"

definition decimal :: "nat \<Rightarrow> string" where
  "decimal n = decimal_digits (Suc n) n"

fun commas :: "string list \<Rightarrow> string" where
  "commas [] = []"
| "commas [s] = s"
| "commas (s # t # ss) = s @ '','' @ commas (t # ss)"

definition Marshal_ints :: "nat list \<Rightarrow> error + string" where
  "Marshal_ints xs = Inr (''['' @ commas (map decimal xs) @ '']'')"

text \<open>A decoder given by a table from stored values to records; other values do not decode.\<close>

definition Unmarshal_table ::
  "(bytes \<times> apiRequest) list \<Rightarrow> bytes \<Rightarrow> error + apiRequest" where
  "Unmarshal_table tbl v =
     (case map_of tbl v of
        None \<Rightarrow> Inl ''invalid character''
      | Some r \<Rightarrow> Inr r)"

subsection \<open>What the proofs talk about\<close>

text \<open>
  The day boundaries and the labels of a call at \<open>now\<close>, and the requests that the read of
  the store leaves in the slice \<open>requests\<close>.
\<close>

definition window :: "Time \<Rightarrow> Time list" where
  "window now = fst (thresholds (today_of now))"

definition labels :: "Time \<Rightarrow> string list" where
  "labels now = snd (thresholds (today_of now))"

definition stored_requests :: "(bytes \<Rightarrow> error + apiRequest) \<Rightarrow> bolt_DB \<Rightarrow> apiRequest list" where
  "stored_requests json_Unmarshal store =
     fst (ForEach_requests json_Unmarshal (requests_bucket store) ([], []))"

text \<open>
  The trace of the inner loop: the indices at which it does its record keeping for a
  request with instant \<open>ts\<close>, in the order it does them.  The equations follow those of
  \<open>check_request\<close> branch by branch; \<open>check_request_hits\<close> below shows that the loop does
  exactly these.  A request is counted into the buckets of its trace.
\<close>

fun hits :: "Time list \<Rightarrow> Time \<Rightarrow> nat list \<Rightarrow> nat list" where
  "hits times' ts [] = []"
| "hits times' ts (j # js) =
     (if j = length times' - 1 \<and> (After ts (times' ! j) \<or> Equal ts (times' ! j))
      then [j]
      else if Equal ts (times' ! j)
      then [j]
      else if Before ts (times' ! j)
      then (if j = 0 then [] else (j - 1) # hits times' ts js)
      else hits times' ts js)"

definition counted_into :: "Time list \<Rightarrow> apiRequest \<Rightarrow> nat list" where
  "counted_into times' r = hits times' (ts_of r) [0..<length times']"

text \<open>The record keeping at an index inside the arrays, and arrays of \<open>n\<close> entries.\<close>

definition bump :: "apiRequest \<Rightarrow> nat \<Rightarrow> counters \<Rightarrow> counters" where
  "bump r k c =
     c\<lparr>total := (total c)[k := total c ! k + 1],
       unique := (unique c)[k := (if RemoteAddr r \<in> ips c ! k then unique c ! k
                                  else unique c ! k + 1)],
       ips := (ips c)[k := insert (RemoteAddr r) (ips c ! k)]\<rparr>"

definition wf_counters :: "nat \<Rightarrow> counters \<Rightarrow> bool" where
  "wf_counters n c \<longleftrightarrow> length (total c) = n \<and> length (unique c) = n \<and> length (ips c) = n"

text \<open>Inputs to run the model on: two clock readings, a request, a store.\<close>

definition noon_utc :: Time where
  "noon_utc = \<lparr>sec = 1793534400, offset = 0\<rparr>"


definition request_at :: "string \<Rightarrow> int \<Rightarrow> apiRequest" where
  "request_at addr ms =
     \<lparr>URL = ''/api/contents?type=Post'', Method = ''GET'', Origin = [],
      Proto = ''HTTP/1.1'', RemoteAddr = addr, Timestamp = word_of_int ms, External = False\<rparr>"

definition open_store :: "bytes list \<Rightarrow> bolt_DB" where
  "open_store vs = \<lparr>view_err = None, requests_bucket = map (\<lambda>v. (''key of '' @ v, v)) vs\<rparr>"

text \<open>
  A store of three entries: two requests made today from one address, and a value that
  does not decode.
\<close>

definition two_today :: "(bytes \<times> apiRequest) list" where
  "two_today = [(''a'', request_at ''10.0.0.7:51324'' 1793500000000),
                (''b'', request_at ''10.0.0.7:51324'' 1793510000000)]"

definition two_today_store :: bolt_DB where
  "two_today_store = open_store [''a'', ''not json'', ''b'']"


text \<open>
  The second loop as a fold of the record keeping over the traces, from the fresh arrays,
  and the lines that the read of the store logs.
\<close>

definition tally :: "Time list \<Rightarrow> apiRequest list \<Rightarrow> counters" where
  "tally times' rs = fold (\<lambda>r. fold (bump r) (counted_into times' r)) rs counters0"

definition decode_log :: "(bytes \<Rightarrow> error + apiRequest) \<Rightarrow> bolt_DB \<Rightarrow> string list" where
  "decode_log json_Unmarshal store =
     snd (ForEach_requests json_Unmarshal (requests_bucket store) ([], []))"

text \<open>
  What the second loop keeps true of its arrays: each \<open>unique\<close> counter is the size of
  the day's set of addresses.
\<close>

definition counters_inv :: "nat \<Rightarrow> counters \<Rightarrow> bool" where
  "counters_inv n c \<longleftrightarrow>
     wf_counters n c \<and> (\<forall>j<n. finite (ips c ! j) \<and> unique c ! j = card (ips c ! j))"

section \<open>Properties\<close>

subsection \<open>The calendar\<close>

lemma year_and_yday_sound:
  assumes "year_and_yday z = (y, yday)"
  shows "0 \<le> yday \<and> yday \<le> 365 \<and> days_before_year y + yday = z"
proof -
  define r where "r = z mod 146097"
  define n400 where "n400 = z div 146097"
  define n100 where "n100 = min 3 (r div 36524)"
  define r1 where "r1 = r - 36524 * n100"
  define n4 where "n4 = r1 div 1461"
  define r2 where "r2 = r1 mod 1461"
  define n1 where "n1 = min 3 (r2 div 365)"
  define s where "s = 100 * n100 + 4 * n4 + n1"
  have "year_and_yday z = (400 * n400 + 100 * n100 + 4 * n4 + n1, r2 - 365 * n1)"
    unfolding year_and_yday_def Let_def n1_def r2_def n4_def r1_def n100_def n400_def r_def
    by (rule refl)
  with assms have y: "y = 400 * n400 + s" and yday: "yday = r2 - 365 * n1"
    by (simp_all add: s_def)
  have r: "0 \<le> r" "r < 146097" by (simp_all add: r_def)
  have n100: "0 \<le> n100" "n100 \<le> 3" using r by (simp_all add: n100_def)
  have r1: "0 \<le> r1" "r1 \<le> 36524" using r unfolding r1_def n100_def min_def by auto
  have n4: "0 \<le> n4" "n4 \<le> 24" using r1 unfolding n4_def by auto
  have r2: "0 \<le> r2" "r2 < 1461" by (simp_all add: r2_def)
  have n1: "0 \<le> n1" "n1 \<le> 3" using r2 by (simp_all add: n1_def)
  have b: "0 \<le> yday" "yday \<le> 365" using r2 unfolding yday n1_def min_def by auto
  have "r1 = 1461 * n4 + r2" unfolding n4_def r2_def by simp
  then have rr: "r = 36524 * n100 + 1461 * n4 + 365 * n1 + yday" unfolding r1_def yday by simp
  have z: "z = 146097 * n400 + r" unfolding r_def n400_def by simp
  have sb: "0 \<le> s" "s < 400" using n100 n4 n1 by (simp_all add: s_def)
  have "s = n1 + 4 * (25 * n100 + n4)" by (simp add: s_def)
  then have s4: "s div 4 = 25 * n100 + n4" using n1 by simp
  have "s = (4 * n4 + n1) + 100 * n100" by (simp add: s_def)
  then have s100: "s div 100 = n100" using n4 n1 by simp
  have y4: "y div 4 = 100 * n400 + s div 4"
  proof -
    have "y = s + 4 * (100 * n400)" by (simp add: y)
    then show ?thesis by simp
  qed
  have y100: "y div 100 = 4 * n400 + s div 100"
  proof -
    have "y = s + 100 * (4 * n400)" by (simp add: y)
    then show ?thesis by simp
  qed
  have y400: "y div 400 = n400"
  proof -
    have "y = s + 400 * n400" by (simp add: y)
    then show ?thesis using sb by simp
  qed
  have "days_before_year y + yday = z"
    unfolding days_before_year_def y4 y100 y400 s4 s100 z rr by (simp add: y s_def)
  with b show ?thesis by simp
qed

lemma month_and_mday_sound:
  assumes "0 \<le> yday" "yday \<le> 365" "month_and_mday yday = (m, d)"
  shows "1 \<le> m \<and> m \<le> 12 \<and> 1 \<le> d \<and> d \<le> 31 \<and> days_before_month m + (d - 1) = yday"
proof -
  define mp where "mp = (5 * yday + 2) div 153"
  define c where "c = (153 * mp + 2) div 5"
  from assms(3) have m: "m = (if mp < 10 then mp + 3 else mp - 9)" and d: "d = yday - c + 1"
    unfolding month_and_mday_def Let_def mp_def c_def by simp_all
  have mp: "0 \<le> mp" "mp \<le> 11" using assms(1,2) unfolding mp_def by auto
  have "5 * yday + 2 = 153 * mp + (5 * yday + 2) mod 153"
    unfolding mp_def by simp
  moreover have "0 \<le> (5 * yday + 2) mod 153" "(5 * yday + 2) mod 153 < 153" by simp_all
  ultimately have b: "153 * mp \<le> 5 * yday + 2" "5 * yday + 2 < 153 * mp + 153" by linarith+
  have "153 * mp + 2 = 5 * c + (153 * mp + 2) mod 5"
    unfolding c_def by simp
  moreover have "0 \<le> (153 * mp + 2) mod 5" "(153 * mp + 2) mod 5 < 5" by simp_all
  ultimately have cb: "5 * c \<le> 153 * mp + 2" "153 * mp + 2 < 5 * c + 5" by linarith+
  have db: "1 \<le> d" "d \<le> 31" using b cb unfolding d by linarith+
  have mb: "1 \<le> m" "m \<le> 12" using mp unfolding m by auto
  have "(if m > 2 then m - 3 else m + 9) = mp" using mp unfolding m by auto
  then have "days_before_month m = c" unfolding days_before_month_def c_def by simp
  with db mb show ?thesis by (simp add: d)
qed

lemma civil_from_days_sound:
  assumes "civil_from_days n = (y, m, d)"
  shows "1 \<le> m \<and> m \<le> 12 \<and> 1 \<le> d \<and> d \<le> 31 \<and> days_from_civil y m d = n"
proof -
  obtain y0 yday where yy: "year_and_yday (n + 719468) = (y0, yday)"
    by (cases "year_and_yday (n + 719468)")
  obtain m0 d0 where md: "month_and_mday yday = (m0, d0)"
    by (cases "month_and_mday yday")
  from assms have e: "y = (if m \<le> 2 then y0 + 1 else y0)" "m = m0" "d = d0"
    by (auto simp: civil_from_days_def yy md)
  from year_and_yday_sound [OF yy]
  have a: "0 \<le> yday" "yday \<le> 365" "days_before_year y0 + yday = n + 719468" by simp_all
  from month_and_mday_sound [OF a(1,2) md]
  have b: "1 \<le> m" "m \<le> 12" "1 \<le> d" "d \<le> 31" "days_before_month m + (d - 1) = yday"
    unfolding e by simp_all
  have "(if m \<le> 2 then y - 1 else y) = y0" using e(1) by simp
  then have "days_from_civil y m d = n"
    unfolding days_from_civil_def using a(3) b(5) by simp
  with b show ?thesis by simp
qed

subsection \<open>\<open>Record\<close>\<close>

lemma HasPrefix_iff: "HasPrefix s p \<longleftrightarrow> (\<exists>suf. s = p @ suf)"
  by (induction s p rule: HasPrefix.induct) auto

lemma Contains_iff: "Contains s sub \<longleftrightarrow> (\<exists>pre suf. s = pre @ sub @ suf)"
proof (induction s)
  case Nil
  then show ?case by (auto simp: HasPrefix_iff)
next
  case (Cons c cs)
  show ?case
  proof
    assume "Contains (c # cs) sub"
    then consider "HasPrefix (c # cs) sub" | "Contains cs sub" by auto
    then show "\<exists>pre suf. c # cs = pre @ sub @ suf"
    proof cases
      case 1
      then obtain suf where "c # cs = sub @ suf" by (auto simp: HasPrefix_iff)
      then have "c # cs = [] @ sub @ suf" by simp
      then show ?thesis by blast
    next
      case 2
      with Cons.IH obtain pre suf where "cs = pre @ sub @ suf" by blast
      then have "c # cs = (c # pre) @ sub @ suf" by simp
      then show ?thesis by blast
    qed
  next
    assume "\<exists>pre suf. c # cs = pre @ sub @ suf"
    then obtain pre suf where e: "c # cs = pre @ sub @ suf" by blast
    show "Contains (c # cs) sub"
    proof (cases pre)
      case Nil
      with e have "HasPrefix (c # cs) sub" by (auto simp: HasPrefix_iff)
      then show ?thesis by simp
    next
      case (Cons a pre')
      with e have "cs = pre' @ sub @ suf" by simp
      with Cons.IH have "Contains cs sub" by blast
      then show ?thesis by simp
    qed
  qed
qed

text \<open>
  Claim C5, as amended.  The record's \<open>External\<close> field is true exactly when the request
  path contains \<open>/external/\<close> somewhere: at its start, in the middle or at its end.
\<close>

theorem Record_External_iff_contains:
  "External (last (Record now req requestChan))
     \<longleftrightarrow> (\<exists>pre suf. URL_Path req = pre @ ''/external/'' @ suf)"
  by (simp add: Record_def Record_r_def Let_def Contains_iff)

text \<open>
  Claim C5 as stated fails: no prefix \<open>p\<close> makes \<open>External\<close> the test "the path
  starts with \<open>p\<close>".  The paths \<open>/external/\<close> and \<open>/api/external/\<close> both give true, so
  \<open>p\<close> would be empty or \<open>/\<close>; the path \<open>/\<close> gives false.
\<close>

theorem Record_External_not_prefix:
  "\<not> (\<exists>p. \<forall>now req requestChan.
         External (last (Record now req requestChan)) = HasPrefix (URL_Path req) p)"
proof
  assume "\<exists>p. \<forall>now req requestChan.
         External (last (Record now req requestChan)) = HasPrefix (URL_Path req) p"
  then obtain p where p: "\<And>now req requestChan.
         External (last (Record now req requestChan)) = HasPrefix (URL_Path req) p" by blast
  define rq where "rq path = \<lparr>URL_Path = path, URL_String = path, req_Method = ''GET'',
      Header = Map.empty, req_Proto = ''HTTP/1.1'', req_RemoteAddr = ''[::1]:80''\<rparr>" for path
  have e: "Contains path ''/external/'' = HasPrefix path p" for path
    using p [of "\<lparr>sec = 0, offset = 0\<rparr>" "rq path" "[]"]
    by (simp add: Record_def Record_r_def rq_def)
  from e [of "''/external/''"] have 1: "HasPrefix ''/external/'' p" by simp
  from e [of "''/api/external/''"] have 2: "HasPrefix ''/api/external/'' p" by simp
  from 1 2 have "p = [] \<or> p = ''/''"
    by (cases p; cases "tl p") auto
  with e [of "''/''"] show False by auto
qed

text \<open>A path that does not start with \<open>/external/\<close> and is recorded as external.\<close>

lemma Record_External_inside_path:
  "External (last (Record \<lparr>sec = 0, offset = 0\<rparr>
      \<lparr>URL_Path = ''/api/external/posts'', URL_String = ''/api/external/posts'',
       req_Method = ''POST'', Header = Map.empty, req_Proto = ''HTTP/1.1'',
       req_RemoteAddr = ''[::1]:80''\<rparr> []))
   \<and> \<not> HasPrefix ''/api/external/posts'' ''/external/''"
  by (simp add: Record_def Record_r_def)

lemma sint_Unix_times_1000:
  assumes "- (2 ^ 63) \<le> 1000 * s" "1000 * s < 2 ^ 63"
  shows "sint (word_of_int s * 1000 :: 64 word) = 1000 * s"
proof -
  have "(word_of_int s * 1000 :: 64 word) = word_of_int (1000 * s)" by simp
  then have "sint (word_of_int s * 1000 :: 64 word) = signed_take_bit 63 (1000 * s)"
    by (simp only: sint_sbintrunc') simp
  also have "\<dots> = 1000 * s" using assms by (intro signed_take_bit_int_eq_self) simp_all
  finally show ?thesis .
qed

text \<open>
  Claim C10.  For a clock whose millisecond count fits an int64 (some 292 million years
  either side of 1970), the record's \<open>Timestamp\<close> is 1000 times the whole seconds of
  the clock, a multiple of 1000: nothing below a second is kept.
\<close>

theorem Record_Timestamp_whole_seconds:
  assumes "- (2 ^ 63) \<le> 1000 * sec now" "1000 * sec now < 2 ^ 63"
  shows "sint (Timestamp (last (Record now req requestChan))) = 1000 * sec now
       \<and> sint (Timestamp (last (Record now req requestChan))) mod 1000 = 0"
  using sint_Unix_times_1000 [OF assms] by (simp add: Record_def Record_r_def)

theorem Record_Timestamp_whole_seconds_witness:
  "sint (Timestamp (last (Record \<lparr>sec = 1793534461, offset = 3600\<rparr>
      \<lparr>URL_Path = ''/api/contents'', URL_String = ''/api/contents?type=Post'',
       req_Method = ''GET'', Header = Map.empty, req_Proto = ''HTTP/1.1'',
       req_RemoteAddr = ''10.0.0.7:51324''\<rparr> []))) = 1793534461000
   \<and> (1793534461000 :: int) mod 1000 = 0"
  using Record_Timestamp_whole_seconds [of "\<lparr>sec = 1793534461, offset = 3600\<rparr>"
      "\<lparr>URL_Path = ''/api/contents'', URL_String = ''/api/contents?type=Post'',
       req_Method = ''GET'', Header = Map.empty, req_Proto = ''HTTP/1.1'',
       req_RemoteAddr = ''10.0.0.7:51324''\<rparr>" "[]"]
  by simp

subsection \<open>The day boundaries\<close>

lemma upt_14: "[0..<14] = [0,1,2,3,4,5,6,7,8,9,10,11,12,13::nat]"
  by code_simp

lemma thresholds_eq:
  "thresholds today =
     (map (\<lambda>k. Add_hours today (- 24 * (13 - int k))) [0..<14],
      map (\<lambda>k. Format_01_02 (Add_hours today (- 24 * (13 - int k)))) [0..<14])"
proof -
  have r: "replicate 14 x = [x, x, x, x, x, x, x, x, x, x, x, x, x, x]" for x :: 'a
    by (simp add: eval_nat_numeral)
  show ?thesis
    unfolding thresholds_def upt_14 r by (simp add: Let_def)
qed

lemma today_of_eq: "today_of now = \<lparr>sec = 86400 * local_day now, offset = 0\<rparr>"
proof -
  obtain y m d where c: "civil_from_days (local_day now) = (y, m, d)"
    by (cases "civil_from_days (local_day now)")
  from civil_from_days_sound [OF c] have "days_from_civil y m d = local_day now" by simp
  then show ?thesis by (simp add: today_of_def time_Date_UTC_def Year_def Month_def Day_def c)
qed

lemma window_eq:
  "window now = map (\<lambda>k. \<lparr>sec = 86400 * (local_day now - (13 - int k)), offset = 0\<rparr>) [0..<14]"
  unfolding window_def thresholds_eq today_of_eq by (simp add: Add_hours_def algebra_simps)

lemma length_window [simp]: "length (window now) = 14"
  by (simp add: window_eq)

lemma window_nth: "k < 14 \<Longrightarrow> window now ! k = \<lparr>sec = 86400 * (local_day now - (13 - int k)), offset = 0\<rparr>"
  unfolding window_eq by (simp del: upt_Suc)

lemma labels_eq:
  "labels now = map Format_01_02 (window now)"
  unfolding labels_def window_def thresholds_eq by (simp add: comp_def)

subsection \<open>The counting loop\<close>

lemma record_keeping_bump:
  assumes "wf_counters n c" "k < n"
  shows "record_keeping (int k) r c = Some (bump r k c)"
  using assms
  by (simp add: record_keeping_def bump_def wf_counters_def Let_def insert_absorb)

lemma wf_bump: "wf_counters n c \<Longrightarrow> wf_counters n (bump r k c)"
  by (simp add: wf_counters_def bump_def)

lemma wf_fold_bump: "wf_counters n c \<Longrightarrow> wf_counters n (fold (bump r) ks c)"
  by (induction ks arbitrary: c) (simp_all add: wf_bump)

lemma hits_near: "h \<in> set (hits times' ts js) \<Longrightarrow> \<exists>j\<in>set js. h = j \<or> Suc h = j"
  by (induction js) (auto split: if_splits)

lemma hits_bound: "\<forall>j\<in>set js. j < n \<Longrightarrow> h \<in> set (hits times' ts js) \<Longrightarrow> h < n"
  using hits_near [of h times' ts js] by auto

lemma hits_sorted: "sorted_wrt (<) js \<Longrightarrow> sorted_wrt (<) (hits times' ts js)"
proof (induction js)
  case Nil
  then show ?case by simp
next
  case (Cons j js)
  have "j - 1 < h" if "h \<in> set (hits times' ts js)" "0 < j" for h
  proof -
    from hits_near [OF that(1)] obtain j' where "j' \<in> set js" "h = j' \<or> Suc h = j'" by blast
    moreover from Cons.prems have "j < j'" using \<open>j' \<in> set js\<close> by simp
    ultimately show ?thesis using that(2) by auto
  qed
  with Cons show ?case by auto
qed

lemma distinct_counted_into: "distinct (counted_into times' r)"
proof -
  have "sorted_wrt (<) (counted_into times' r)"
    unfolding counted_into_def by (rule hits_sorted) simp
  then show ?thesis using strict_sorted_iff by blast
qed

lemma counted_into_bound: "h \<in> set (counted_into times' r) \<Longrightarrow> h < length times'"
  unfolding counted_into_def by (erule hits_bound [rotated]) simp

lemma check_request_hits:
  assumes "wf_counters n c" "\<forall>j\<in>set js. j < n"
  shows "check_request times' ts r js c = Some (fold (bump r) (hits times' ts js) c)"
  using assms
proof (induction js arbitrary: c)
  case Nil
  then show ?case by simp
next
  case (Cons j js)
  from Cons.prems have j: "j < n" and js: "\<forall>j\<in>set js. j < n" by simp_all
  have same: "record_keeping (int j) r c = Some (bump r j c)"
    by (rule record_keeping_bump [OF Cons.prems(1) j])
  have prev: "record_keeping (int j - 1) r c = Some (bump r (j - 1) c)" if "j \<noteq> 0"
  proof -
    from that have e: "int j - 1 = int (j - 1)" by simp
    have "j - 1 < n" using j by simp
    then have "record_keeping (int (j - 1)) r c = Some (bump r (j - 1) c)"
      by (rule record_keeping_bump [OF Cons.prems(1)])
    then show ?thesis unfolding e .
  qed
  have rest: "check_request times' ts r js c' = Some (fold (bump r) (hits times' ts js) c')"
    if "wf_counters n c'" for c'
    using Cons.IH [OF that js] .
  show ?case
  proof (cases "j = length times' - 1 \<and> (After ts (times' ! j) \<or> Equal ts (times' ! j))")
    case True
    have "check_request times' ts r (j # js) c = record_keeping (int j) r c"
      unfolding check_request.simps by (rule if_P [OF True])
    moreover have "hits times' ts (j # js) = [j]"
      unfolding hits.simps by (rule if_P [OF True])
    ultimately show ?thesis using same by simp
  next
    case last: False
    show ?thesis
    proof (cases "Equal ts (times' ! j)")
      case True
      have "check_request times' ts r (j # js) c = record_keeping (int j) r c"
        unfolding check_request.simps by (simp only: if_not_P [OF last] if_P [OF True])
      moreover have "hits times' ts (j # js) = [j]"
        unfolding hits.simps by (simp only: if_not_P [OF last] if_P [OF True])
      ultimately show ?thesis using same by simp
    next
      case eq: False
      show ?thesis
      proof (cases "Before ts (times' ! j)")
        case before: True
        show ?thesis
        proof (cases "j = 0")
          case True
          have "check_request times' ts r (j # js) c = Some c"
            unfolding check_request.simps
            by (simp only: if_not_P [OF last] if_not_P [OF eq] if_P [OF before] if_P [OF True])
          moreover have "hits times' ts (j # js) = []"
            unfolding hits.simps
            by (simp only: if_not_P [OF last] if_not_P [OF eq] if_P [OF before] if_P [OF True])
          ultimately show ?thesis by simp
        next
          case False
          have "check_request times' ts r (j # js) c =
                  (case record_keeping (int j - 1) r c of
                     None \<Rightarrow> None
                   | Some c' \<Rightarrow> check_request times' ts r js c')"
            unfolding check_request.simps
            by (simp only: if_not_P [OF last] if_not_P [OF eq] if_P [OF before] if_not_P [OF False])
          also have "\<dots> = check_request times' ts r js (bump r (j - 1) c)"
            by (simp only: prev [OF False] option.case)
          also have "\<dots> = Some (fold (bump r) (hits times' ts js) (bump r (j - 1) c))"
            by (rule rest [OF wf_bump [OF Cons.prems(1)]])
          also have "hits times' ts js = tl (hits times' ts (j # js))"
            unfolding hits.simps
            by (simp only: if_not_P [OF last] if_not_P [OF eq] if_P [OF before] if_not_P [OF False]
                list.sel)
          finally have "check_request times' ts r (j # js) c =
              Some (fold (bump r) (tl (hits times' ts (j # js))) (bump r (j - 1) c))" .
          moreover have "hits times' ts (j # js) = (j - 1) # tl (hits times' ts (j # js))"
            unfolding hits.simps
            by (simp only: if_not_P [OF last] if_not_P [OF eq] if_P [OF before] if_not_P [OF False]
                list.sel)
          ultimately show ?thesis by (metis fold_simps(2))
        qed
      next
        case False
        have "check_request times' ts r (j # js) c = check_request times' ts r js c"
          unfolding check_request.simps
          by (simp only: if_not_P [OF last] if_not_P [OF eq] if_not_P [OF False])
        moreover have "hits times' ts (j # js) = hits times' ts js"
          unfolding hits.simps
          by (simp only: if_not_P [OF last] if_not_P [OF eq] if_not_P [OF False])
        ultimately show ?thesis using rest [OF Cons.prems(1)] by simp
      qed
    qed
  qed
qed

lemma CHECK_REQUEST_fold:
  assumes "wf_counters (length times') c"
  shows "CHECK_REQUEST times' rs c =
           Some (fold (\<lambda>r. fold (bump r) (counted_into times' r)) rs c)"
  using assms
proof (induction rs arbitrary: c)
  case Nil
  then show ?case by simp
next
  case (Cons r rs)
  have "check_request times' (ts_of r) r [0..<length times'] c =
          Some (fold (bump r) (counted_into times' r) c)"
    unfolding counted_into_def by (rule check_request_hits [OF Cons.prems]) simp
  moreover have "wf_counters (length times') (fold (bump r) (counted_into times' r) c)"
    by (rule wf_fold_bump [OF Cons.prems])
  ultimately show ?case using Cons.IH by simp
qed

lemma inv_bump:
  assumes "counters_inv n c"
  shows "counters_inv n (bump r k c)"
proof -
  from assms have wf: "wf_counters n c"
    and fin: "\<And>j. j < n \<Longrightarrow> finite (ips c ! j)"
    and u: "\<And>j. j < n \<Longrightarrow> unique c ! j = card (ips c ! j)"
    by (simp_all add: counters_inv_def)
  have "finite (ips (bump r k c) ! j) \<and> unique (bump r k c) ! j = card (ips (bump r k c) ! j)"
    if "j < n" for j
  proof (cases "j = k")
    case True
    with that wf fin [OF that] u [OF that] show ?thesis
      by (simp add: bump_def wf_counters_def insert_absorb)
  next
    case False
    with that wf fin [OF that] u [OF that] show ?thesis
      by (simp add: bump_def wf_counters_def)
  qed
  with wf_bump [OF wf] show ?thesis by (simp add: counters_inv_def)
qed

lemma inv_fold_bump: "counters_inv n c \<Longrightarrow> counters_inv n (fold (bump r) ks c)"
  by (induction ks arbitrary: c) (simp_all add: inv_bump)

lemma inv_fold_requests:
  "counters_inv n c \<Longrightarrow> counters_inv n (fold (\<lambda>r. fold (bump r) (f r)) rs c)"
  by (induction rs arbitrary: c) (simp_all add: inv_fold_bump)

lemma inv_counters0: "counters_inv 14 counters0"
  by (simp add: counters_inv_def wf_counters_def counters0_def)

lemma total_fold_bump:
  assumes "wf_counters n c" "j < n" "distinct ks"
  shows "total (fold (bump r) ks c) ! j = total c ! j + (if j \<in> set ks then 1 else 0)"
  using assms
proof (induction ks arbitrary: c)
  case Nil
  then show ?case by simp
next
  case (Cons k ks)
  from Cons.prems have "total (bump r k c) ! j = total c ! j + (if j = k then 1 else 0)"
    by (simp add: bump_def wf_counters_def nth_list_update)
  moreover from Cons.prems have "k \<notin> set ks" "distinct ks" by simp_all
  ultimately show ?case
    using Cons.IH [OF wf_bump [OF Cons.prems(1)] Cons.prems(2)] by auto
qed

lemma ips_fold_bump:
  assumes "wf_counters n c" "j < n"
  shows "ips (fold (bump r) ks c) ! j =
           (if j \<in> set ks then insert (RemoteAddr r) (ips c ! j) else ips c ! j)"
  using assms
proof (induction ks arbitrary: c)
  case Nil
  then show ?case by simp
next
  case (Cons k ks)
  from Cons.prems
  have "ips (bump r k c) ! j = (if j = k then insert (RemoteAddr r) (ips c ! j) else ips c ! j)"
    by (simp add: bump_def wf_counters_def nth_list_update)
  then show ?case
    using Cons.IH [OF wf_bump [OF Cons.prems(1)] Cons.prems(2)] by auto
qed

lemma total_fold_requests:
  assumes "wf_counters n c" "j < n" "\<And>r. distinct (f r)"
  shows "total (fold (\<lambda>r. fold (bump r) (f r)) rs c) ! j =
           total c ! j + length (filter (\<lambda>r. j \<in> set (f r)) rs)"
  using assms(1)
proof (induction rs arbitrary: c)
  case Nil
  then show ?case by simp
next
  case (Cons r rs)
  show ?case
    using Cons.IH [OF wf_fold_bump [OF Cons.prems]]
      total_fold_bump [OF Cons.prems assms(2) assms(3)]
    by simp
qed

lemma ips_fold_requests:
  assumes "wf_counters n c" "j < n"
  shows "ips (fold (\<lambda>r. fold (bump r) (f r)) rs c) ! j =
           ips c ! j \<union> RemoteAddr ` {r \<in> set rs. j \<in> set (f r)}"
  using assms(1)
proof (induction rs arbitrary: c)
  case Nil
  then show ?case by simp
next
  case (Cons r rs)
  show ?case
    using Cons.IH [OF wf_fold_bump [OF Cons.prems]]
      ips_fold_bump [OF Cons.prems assms(2)]
    by auto
qed

subsection \<open>The trace on increasing boundaries\<close>

lemma hits_skip:
  assumes "\<forall>j\<in>set js. Before (times' ! j) ts \<and> j \<noteq> length times' - 1"
  shows "hits times' ts (js @ ks) = hits times' ts ks"
  using assms by (induction js) (auto simp: Before_def Equal_def After_def)

lemma hits_cascade:
  assumes "\<forall>j\<in>set js. Before ts (times' ! j) \<and> j \<noteq> 0"
  shows "hits times' ts js = map (\<lambda>j. j - 1) js"
  using assms by (induction js) (auto simp: Before_def Equal_def After_def)

lemma hits_first_before:
  assumes "Before ts (times' ! 0)" "1 < length times'"
  shows "hits times' ts (0 # js) = []"
  using assms by (auto simp: Before_def Equal_def After_def)


lemma hits_last:
  assumes "After ts (times' ! k)" "k = length times' - 1"
  shows "hits times' ts (k # js) = [k]"
  using assms by simp

lemma window_mono: "i < j \<Longrightarrow> j < 14 \<Longrightarrow> Before (window now ! i) (window now ! j)"
  by (simp add: window_nth Before_def)

lemma upt_split: "k < n \<Longrightarrow> [0..<n] = [0..<k] @ k # [Suc k..<n]"
  by (metis add_0 le_add2 less_imp_add_positive upt_add_eq_append upt_conv_Cons zero_le)

lemma counted_into_old:
  assumes "Before (ts_of r) (window now ! 0)"
  shows "counted_into (window now) r = []"
proof -
  have "[0..<length (window now)] = 0 # [1..<14]" by (simp add: upt_conv_Cons)
  then show ?thesis
    unfolding counted_into_def using hits_first_before [OF assms] by simp
qed


lemma counted_into_today:
  assumes "After (ts_of r) (window now ! 13)"
  shows "counted_into (window now) r = [13]"
proof -
  have "\<forall>j\<in>set [0..<13]. Before (window now ! j) (ts_of r) \<and> j \<noteq> length (window now) - 1"
  proof
    fix j :: nat assume "j \<in> set [0..<13]"
    then have j: "j < 13" by simp
    then have "sec (window now ! j) < sec (window now ! 13)"
      using window_mono [of j 13 now] by (simp add: Before_def)
    with assms j show "Before (window now ! j) (ts_of r) \<and> j \<noteq> length (window now) - 1"
      by (simp add: Before_def After_def)
  qed
  from hits_skip [OF this] show ?thesis
    unfolding counted_into_def using upt_split [of 13 14] hits_last [OF assms]
    by simp
qed

lemma counted_into_between:
  assumes "1 \<le> k" "k < 14"
    "Before (window now ! (k - 1)) (ts_of r)" "Before (ts_of r) (window now ! k)"
  shows "counted_into (window now) r = [k - 1..<13]"
proof -
  have 1: "\<forall>j\<in>set [0..<k]. Before (window now ! j) (ts_of r) \<and> j \<noteq> length (window now) - 1"
  proof
    fix j assume "j \<in> set [0..<k]"
    then have j: "j \<le> k - 1" "j < k" by auto
    have "sec (window now ! j) \<le> sec (window now ! (k - 1))"
      using j assms(2) by (simp add: window_nth)
    with assms(3) j assms(2) show "Before (window now ! j) (ts_of r) \<and> j \<noteq> length (window now) - 1"
      by (simp add: Before_def)
  qed
  have 2: "\<forall>j\<in>set [k..<14]. Before (ts_of r) (window now ! j) \<and> j \<noteq> 0"
  proof
    fix j assume "j \<in> set [k..<14]"
    then have j: "k \<le> j" "j < 14" by auto
    have "sec (window now ! k) \<le> sec (window now ! j)"
      using j by (simp add: window_nth)
    with assms(1,4) j show "Before (ts_of r) (window now ! j) \<and> j \<noteq> 0"
      by (simp add: Before_def)
  qed
  have "[0..<14] = [0..<k] @ [k..<14]"
    using upt_add_eq_append [of 0 k "14 - k"] assms(2) by simp
  then have "counted_into (window now) r = hits (window now) (ts_of r) [k..<14]"
    unfolding counted_into_def using hits_skip [OF 1] by simp
  also have "\<dots> = map (\<lambda>j. j - 1) [k..<14]" by (rule hits_cascade [OF 2])
  also have "\<dots> = [k - 1..<13]"
    using assms(1) by (auto simp: list_eq_iff_nth_eq)
  finally show ?thesis .
qed

subsection \<open>Reading the store\<close>

lemma ForEach_requests_eq:
  "ForEach_requests ju kvs (rs, lg) =
     (rs @ map (\<lambda>kv. projr (ju (snd kv))) (filter (\<lambda>kv. \<not> isl (ju (snd kv))) kvs),
      lg @ map (\<lambda>kv. log_line (projl (ju (snd kv)))) (filter (\<lambda>kv. isl (ju (snd kv))) kvs))"
proof (induction kvs arbitrary: rs lg)
  case Nil
  then show ?case by simp
next
  case (Cons kv kvs)
  obtain k v where kv: "kv = (k, v)" by (cases kv)
  show ?case
    unfolding kv by (cases "ju v") (simp_all add: Cons.IH)
qed

lemma stored_requests_eq:
  "stored_requests ju store =
     map (\<lambda>kv. projr (ju (snd kv))) (filter (\<lambda>kv. \<not> isl (ju (snd kv))) (requests_bucket store))"
  by (simp add: stored_requests_def ForEach_requests_eq)

lemma decode_log_eq:
  "decode_log ju store =
     map (\<lambda>kv. log_line (projl (ju (snd kv)))) (filter (\<lambda>kv. isl (ju (snd kv))) (requests_bucket store))"
  by (simp add: decode_log_def ForEach_requests_eq)

subsection \<open>The whole call\<close>

lemma wf_counters0: "wf_counters 14 counters0"
  by (simp add: wf_counters_def counters0_def)

lemma CHECK_REQUEST_tally: "CHECK_REQUEST (window now) rs counters0 = Some (tally (window now) rs)"
  unfolding tally_def by (rule CHECK_REQUEST_fold) (simp add: wf_counters0)

lemma length_labels [simp]: "length (labels now) = 14"
  by (simp add: labels_eq)

lemma ChartData_eq:
  "ChartData jm ju now store =
     (case view_err store of
        Some e \<Rightarrow> Some \<lparr>result = None, err = Some e, logged = []\<rparr>
      | None \<Rightarrow>
         (case jm (unique (tally (window now) (stored_requests ju store))) of
            Inl e \<Rightarrow> Some \<lparr>result = None, err = Some e, logged = decode_log ju store\<rparr>
          | Inr jsUnique \<Rightarrow>
             (case jm (total (tally (window now) (stored_requests ju store))) of
                Inl e \<Rightarrow> Some \<lparr>result = None, err = Some e, logged = decode_log ju store\<rparr>
              | Inr jsTotal \<Rightarrow>
                 Some \<lparr>result = Some \<lparr>chart_dates = labels now,
                                       chart_unique = jsUnique,
                                       chart_total = jsTotal,
                                       chart_from = labels now ! 0,
                                       chart_to = labels now ! 13\<rparr>,
                       err = None, logged = decode_log ju store\<rparr>)))"
proof -
  obtain rs lg where f: "ForEach_requests ju (requests_bucket store) ([], []) = (rs, lg)"
    by (cases "ForEach_requests ju (requests_bucket store) ([], [])")
  then have rs: "stored_requests ju store = rs" and lg: "decode_log ju store = lg"
    by (simp_all add: stored_requests_def decode_log_def)
  obtain W L where t: "thresholds (today_of now) = (W, L)"
    by (cases "thresholds (today_of now)")
  then have W: "window now = W" and L: "labels now = L"
    by (simp_all add: window_def labels_def)
  have len: "length L - Suc 0 = 13" using length_labels [of now] unfolding L by simp
  show ?thesis
    unfolding ChartData_def Let_def t f rs lg W L
    using CHECK_REQUEST_tally [of now rs, unfolded W]
    by (simp add: len split: option.split sum.split)
qed

lemma tally_wf: "wf_counters 14 (tally (window now) rs)"
  unfolding tally_def
proof (induction rs rule: rev_induct)
  case Nil
  then show ?case by (simp add: wf_counters0)
next
  case (snoc r rs)
  then show ?case by (simp add: wf_fold_bump)
qed

lemma tally_inv: "counters_inv 14 (tally times' rs)"
  unfolding tally_def by (rule inv_fold_requests [OF inv_counters0])

lemma tally_total:
  assumes "j < 14"
  shows "total (tally times' rs) ! j = length (filter (\<lambda>r. j \<in> set (counted_into times' r)) rs)"
  unfolding tally_def
  using total_fold_requests [OF wf_counters0 assms, of "counted_into times'" rs]
    distinct_counted_into assms
  by (simp add: counters0_def)

lemma tally_ips:
  assumes "j < 14"
  shows "ips (tally times' rs) ! j = RemoteAddr ` {r \<in> set rs. j \<in> set (counted_into times' r)}"
  unfolding tally_def
  using ips_fold_requests [OF wf_counters0 assms, of "counted_into times'" rs] assms
  by (simp add: counters0_def)

lemma tally_unique:
  assumes "j < 14"
  shows "unique (tally times' rs) ! j
           = card (RemoteAddr ` {r \<in> set rs. j \<in> set (counted_into times' r)})"
  using tally_inv [of times' rs] assms tally_ips [OF assms, of times' rs]
  by (simp add: counters_inv_def)

lemma tally_lengths:
  "length (total (tally times' rs)) = 14" "length (unique (tally times' rs)) = 14"
  using tally_inv [of times' rs] by (simp_all add: counters_inv_def wf_counters_def)

lemma tally_unique_le_total:
  assumes "j < 14"
  shows "unique (tally times' rs) ! j \<le> total (tally times' rs) ! j"
proof -
  have "card (RemoteAddr ` {r \<in> set rs. j \<in> set (counted_into times' r)})
          \<le> card {r \<in> set rs. j \<in> set (counted_into times' r)}"
    by (rule card_image_le) simp
  also have "\<dots> = card (set (filter (\<lambda>r. j \<in> set (counted_into times' r)) rs))"
    by simp
  also have "\<dots> \<le> length (filter (\<lambda>r. j \<in> set (counted_into times' r)) rs)"
    by (rule card_length)
  finally show ?thesis by (simp add: tally_unique [OF assms] tally_total [OF assms])
qed

subsection \<open>Milliseconds and seconds\<close>

lemma sdiv_1000_exact: "(1000 * s) sdiv 1000 = (s :: int)"
  by (simp add: signed_divide_int_def abs_mult sgn_mult mult_sgn_abs)

lemma sdiv_1000_nonneg: "0 \<le> t \<Longrightarrow> t sdiv 1000 = t div (1000 :: int)"
  by (simp add: signed_divide_int_def sgn_if)

lemma ts_of_before_iff:
  assumes "0 \<le> sint (Timestamp r) \<or> 1000 dvd sint (Timestamp r) \<or> 0 < sec b"
  shows "Before (ts_of r) b \<longleftrightarrow> sint (Timestamp r) < 1000 * sec b"
proof -
  from assms consider "0 \<le> sint (Timestamp r)" | "1000 dvd sint (Timestamp r)"
    | "sint (Timestamp r) < 0" "0 < sec b" by linarith
  then show ?thesis
  proof cases
    case 3
    then have "sec (ts_of r) \<le> 0"
      by (simp add: ts_of_def time_Unix_def signed_divide_int_def sgn_if)
    with 3 show ?thesis by (simp add: Before_def)
  next
    case 1
    then have e: "sec (ts_of r) = sint (Timestamp r) div 1000"
      by (simp add: ts_of_def time_Unix_def sdiv_1000_nonneg)
    have "sint (Timestamp r) = 1000 * (sint (Timestamp r) div 1000) + sint (Timestamp r) mod 1000"
      by simp
    moreover have "0 \<le> sint (Timestamp r) mod 1000" "sint (Timestamp r) mod 1000 < 1000"
      by simp_all
    ultimately show ?thesis unfolding Before_def e by linarith
  next
    case 2
    then obtain s where s: "sint (Timestamp r) = 1000 * s" by (auto simp: dvd_def)
    then have "sec (ts_of r) = s"
      by (simp only: ts_of_def time_Unix_def sdiv_1000_exact Time.simps)
    then show ?thesis by (simp add: Before_def s)
  qed
qed

subsection \<open>Running the model\<close>

lemma local_day_noon_utc: "local_day noon_utc = 20758"
  by (simp add: local_day_def noon_utc_def)

lemma window_noon_utc:
  "k < 14 \<Longrightarrow> window noon_utc ! k = \<lparr>sec = 86400 * (20745 + int k), offset = 0\<rparr>"
  by (simp add: window_nth local_day_noon_utc)

lemma ts_of_request_at:
  assumes "- (2 ^ 63) \<le> 1000 * s" "1000 * s < 2 ^ 63"
  shows "ts_of (request_at addr (1000 * s)) = \<lparr>sec = s, offset = 0\<rparr>"
proof -
  have "sint (word_of_int (1000 * s) :: 64 word) = signed_take_bit 63 (1000 * s)"
    by (simp only: sint_sbintrunc') simp
  also have "\<dots> = 1000 * s" using assms by (intro signed_take_bit_int_eq_self) simp_all
  finally show ?thesis
    by (simp only: ts_of_def request_at_def time_Unix_def apiRequest.simps sdiv_1000_exact)
qed

lemma Unmarshal_table_hit: "Unmarshal_table [(v, r)] v = Inr r"
  by (simp add: Unmarshal_table_def)

lemma Unmarshal_table_miss: "v' \<noteq> v \<Longrightarrow> Unmarshal_table [(v, r)] v' = Inl ''invalid character''"
  by (simp add: Unmarshal_table_def)

lemma tally_total_list:
  "total (tally times' rs) =
     map (\<lambda>j. length (filter (\<lambda>r. j \<in> set (counted_into times' r)) rs)) [0..<14]"
  by (rule nth_equalityI) (simp_all add: tally_lengths tally_total del: upt_Suc)

lemma tally_unique_list:
  "unique (tally times' rs) =
     map (\<lambda>j. length (remdups (map RemoteAddr
                 (filter (\<lambda>r. j \<in> set (counted_into times' r)) rs)))) [0..<14]"
proof (rule nth_equalityI)
  show "length (unique (tally times' rs)) = length (map (\<lambda>j. length (remdups (map RemoteAddr
                 (filter (\<lambda>r. j \<in> set (counted_into times' r)) rs)))) [0..<14])"
    by (simp add: tally_lengths)
next
  fix j assume "j < length (unique (tally times' rs))"
  then have j: "j < 14" by (simp add: tally_lengths)
  have e: "RemoteAddr ` {r \<in> set rs. j \<in> set (counted_into times' r)}
          = set (map RemoteAddr (filter (\<lambda>r. j \<in> set (counted_into times' r)) rs))"
    by auto
  have "card (RemoteAddr ` {r \<in> set rs. j \<in> set (counted_into times' r)})
          = length (remdups (map RemoteAddr (filter (\<lambda>r. j \<in> set (counted_into times' r)) rs)))"
    unfolding e by (rule length_remdups_card_conv [symmetric])
  with j show "unique (tally times' rs) ! j = map (\<lambda>j. length (remdups (map RemoteAddr
                 (filter (\<lambda>r. j \<in> set (counted_into times' r)) rs)))) [0..<14] ! j"
    by (simp add: tally_unique del: upt_Suc)
qed

text \<open>One request an hour after the oldest boundary, seen from noon UTC.\<close>

lemma counted_into_first_day:
  "counted_into (window noon_utc) (request_at addr 1792371600000) = [0..<13]"
proof -
  have ts: "ts_of (request_at addr 1792371600000) = \<lparr>sec = 1792371600, offset = 0\<rparr>"
    using ts_of_request_at [of 1792371600 addr] by simp
  have "counted_into (window noon_utc) (request_at addr 1792371600000) = [1 - 1..<13]"
    by (rule counted_into_between) (simp_all add: ts window_noon_utc Before_def)
  then show ?thesis by simp
qed

lemma Marshal_13_ones: "Marshal_ints [1,1,1,1,1,1,1,1,1,1,1,1,1,0] = Inr ''[1,1,1,1,1,1,1,1,1,1,1,1,1,0]''"
  by (simp add: Marshal_ints_def decimal_def digit_def)

lemma stored_one:
  "stored_requests (Unmarshal_table [(v, r)]) (open_store [v]) = [r]"
  by (simp add: stored_requests_eq open_store_def Unmarshal_table_hit)

lemma tally_first_day:
  "total (tally (window noon_utc) [request_at addr 1792371600000]) = [1,1,1,1,1,1,1,1,1,1,1,1,1,0]"
  "unique (tally (window noon_utc) [request_at addr 1792371600000]) = [1,1,1,1,1,1,1,1,1,1,1,1,1,0]"
  unfolding tally_total_list tally_unique_list upt_14
  by (simp_all add: counted_into_first_day)

text \<open>
  Claim C1 asks that a request strictly between two boundaries \<open>B[j-1]\<close> and \<open>B[j]\<close>
  is counted into bucket \<open>j-1\<close> and into no other.  The loop counts it there and then
  goes on: the third branch lacks the \<open>continue CHECK_REQUEST\<close> that the other two
  branches end with, so every later boundary counts the request again
  (\<open>counted_into_between\<close>).  Here the store holds one request, made an hour after the
  oldest boundary; the call counts it in thirteen of the fourteen buckets.
\<close>

theorem ChartData_first_day_counted_13_times:
  "\<exists>rep ch.
     ChartData Marshal_ints (Unmarshal_table [(''v'', request_at ''10.0.0.7:51324'' 1792371600000)])
       noon_utc (open_store [''v'']) = Some rep
     \<and> result rep = Some ch
     \<and> Before (window noon_utc ! 0) (ts_of (request_at ''10.0.0.7:51324'' 1792371600000))
     \<and> Before (ts_of (request_at ''10.0.0.7:51324'' 1792371600000)) (window noon_utc ! 1)
     \<and> chart_total ch = ''[1,1,1,1,1,1,1,1,1,1,1,1,1,0]''
     \<and> chart_unique ch = ''[1,1,1,1,1,1,1,1,1,1,1,1,1,0]''"
proof -
  have ts: "ts_of (request_at ''10.0.0.7:51324'' 1792371600000) = \<lparr>sec = 1792371600, offset = 0\<rparr>"
    using ts_of_request_at [of 1792371600 "''10.0.0.7:51324''"] by simp
  show ?thesis
    unfolding ChartData_eq stored_one tally_first_day Marshal_13_ones
    by (simp add: open_store_def ts window_noon_utc Before_def)
qed

subsection \<open>Results and errors\<close>

text \<open>
  Claim C8.  Every call returns, and what it returns is either a map with all three
  series (fourteen labels, and the encodings of a fourteen-entry \<open>unique\<close> and a
  fourteen-entry \<open>total\<close> array) and no error, or no map and an error.  The errors are
  those of \<open>store.View\<close> and of the two \<open>json.Marshal\<close> calls.
\<close>

theorem ChartData_complete_or_error:
  "\<exists>rep. ChartData jm ju now store = Some rep \<and>
     ((\<exists>ch u t. result rep = Some ch \<and> err rep = None
          \<and> length (chart_dates ch) = 14
          \<and> length u = 14 \<and> jm u = Inr (chart_unique ch)
          \<and> length t = 14 \<and> jm t = Inr (chart_total ch)
          \<and> chart_from ch = chart_dates ch ! 0 \<and> chart_to ch = chart_dates ch ! 13)
      \<or> (\<exists>e. result rep = None \<and> err rep = Some e))"
proof (cases "view_err store")
  case (Some e)
  then show ?thesis by (simp add: ChartData_eq)
next
  case None
  let ?c = "tally (window now) (stored_requests ju store)"
  show ?thesis
  proof (cases "jm (unique ?c)")
    case (Inl e)
    with None show ?thesis by (simp add: ChartData_eq)
  next
    case u: (Inr jsUnique)
    show ?thesis
    proof (cases "jm (total ?c)")
      case (Inl e)
      with None u show ?thesis by (simp add: ChartData_eq)
    next
      case t: (Inr jsTotal)
      have "length (unique ?c) = 14 \<and> jm (unique ?c) = Inr jsUnique
          \<and> length (total ?c) = 14 \<and> jm (total ?c) = Inr jsTotal"
        using u t by (simp add: tally_lengths)
      then have "\<exists>u t. length u = 14 \<and> jm u = Inr jsUnique \<and> length t = 14 \<and> jm t = Inr jsTotal"
        by blast
      with None u t show ?thesis by (simp add: ChartData_eq)
    qed
  qed
qed

theorem ChartData_complete_or_error_witness:
  "\<exists>rep. ChartData Marshal_ints (Unmarshal_table []) noon_utc
            \<lparr>view_err = Some ''database not open'', requests_bucket = []\<rparr> = Some rep
         \<and> result rep = None \<and> err rep = Some ''database not open''"
  using ChartData_complete_or_error [of Marshal_ints "Unmarshal_table []" noon_utc
      "\<lparr>view_err = Some ''database not open'', requests_bucket = []\<rparr>"]
  by (simp add: ChartData_eq)

lemma ChartData_success_arrays:
  assumes "ChartData jm ju now store = Some rep" "result rep = Some ch"
  shows "jm (unique (tally (window now) (stored_requests ju store))) = Inr (chart_unique ch)
       \<and> jm (total (tally (window now) (stored_requests ju store))) = Inr (chart_total ch)
       \<and> chart_dates ch = labels now \<and> chart_from ch = labels now ! 0
       \<and> chart_to ch = labels now ! 13 \<and> view_err store = None
       \<and> err rep = None \<and> logged rep = decode_log ju store"
  using assms unfolding ChartData_eq
  by (auto split: option.splits sum.splits)

text \<open>
  Claim C9.  In every map the call returns, the two series encode arrays \<open>u\<close> and \<open>t\<close>
  in which, for each of the fourteen buckets, \<open>u[j]\<close> is at most \<open>t[j]\<close>, \<open>t[j]\<close> is the
  number of stored requests counted into bucket \<open>j\<close>, and \<open>u[j]\<close> is the number of
  distinct addresses among them.
\<close>

theorem ChartData_unique_counts:
  assumes "ChartData jm ju now store = Some rep" "result rep = Some ch"
  shows "\<exists>u t. jm u = Inr (chart_unique ch) \<and> jm t = Inr (chart_total ch)
           \<and> length u = 14 \<and> length t = 14
           \<and> (\<forall>j<14. u ! j \<le> t ! j
                 \<and> t ! j = length (filter (\<lambda>r. j \<in> set (counted_into (window now) r))
                                     (stored_requests ju store))
                 \<and> u ! j = card (RemoteAddr `
                                   {r \<in> set (stored_requests ju store).
                                      j \<in> set (counted_into (window now) r)}))"
proof -
  let ?c = "tally (window now) (stored_requests ju store)"
  from ChartData_success_arrays [OF assms]
  have "jm (unique ?c) = Inr (chart_unique ch)" "jm (total ?c) = Inr (chart_total ch)"
    by simp_all
  moreover have "length (unique ?c) = 14" "length (total ?c) = 14"
    by (simp_all add: tally_lengths)
  moreover have "\<forall>j<14. unique ?c ! j \<le> total ?c ! j
       \<and> total ?c ! j = length (filter (\<lambda>r. j \<in> set (counted_into (window now) r))
                                     (stored_requests ju store))
       \<and> unique ?c ! j = card (RemoteAddr `
                                   {r \<in> set (stored_requests ju store).
                                      j \<in> set (counted_into (window now) r)})"
  proof (intro allI impI)
    fix j :: nat assume j: "j < 14"
    from tally_unique_le_total [OF j, of "window now" "stored_requests ju store"]
      tally_total [OF j, of "window now" "stored_requests ju store"]
      tally_unique [OF j, of "window now" "stored_requests ju store"]
    show "unique ?c ! j \<le> total ?c ! j
       \<and> total ?c ! j = length (filter (\<lambda>r. j \<in> set (counted_into (window now) r))
                                     (stored_requests ju store))
       \<and> unique ?c ! j = card (RemoteAddr `
                                   {r \<in> set (stored_requests ju store).
                                      j \<in> set (counted_into (window now) r)})"
      by simp
  qed
  ultimately show ?thesis by blast
qed

lemma Marshal_two_today:
  "Marshal_ints [0,0,0,0,0,0,0,0,0,0,0,0,0,2] = Inr ''[0,0,0,0,0,0,0,0,0,0,0,0,0,2]''"
  "Marshal_ints [0,0,0,0,0,0,0,0,0,0,0,0,0,1] = Inr ''[0,0,0,0,0,0,0,0,0,0,0,0,0,1]''"
  by code_simp+

lemma stored_two_today:
  "stored_requests (Unmarshal_table two_today) two_today_store =
     [request_at ''10.0.0.7:51324'' 1793500000000, request_at ''10.0.0.7:51324'' 1793510000000]"
  "decode_log (Unmarshal_table two_today) two_today_store =
     [''Error decoding json from analytics db: invalid character'']"
  by (simp_all add: stored_requests_eq decode_log_eq two_today_store_def open_store_def
      Unmarshal_table_def two_today_def log_line_def)

lemma counted_into_two_today:
  "counted_into (window noon_utc) (request_at addr 1793500000000) = [13]"
  "counted_into (window noon_utc) (request_at addr 1793510000000) = [13]"
proof -
  have "ts_of (request_at addr 1793500000000) = \<lparr>sec = 1793500000, offset = 0\<rparr>"
    using ts_of_request_at [of 1793500000 addr] by simp
  then show "counted_into (window noon_utc) (request_at addr 1793500000000) = [13]"
    by (intro counted_into_today) (simp add: window_noon_utc After_def)
  have "ts_of (request_at addr 1793510000000) = \<lparr>sec = 1793510000, offset = 0\<rparr>"
    using ts_of_request_at [of 1793510000 addr] by simp
  then show "counted_into (window noon_utc) (request_at addr 1793510000000) = [13]"
    by (intro counted_into_today) (simp add: window_noon_utc After_def)
qed

lemma tally_two_today:
  "total (tally (window noon_utc) (stored_requests (Unmarshal_table two_today) two_today_store))
     = [0,0,0,0,0,0,0,0,0,0,0,0,0,2]"
  "unique (tally (window noon_utc) (stored_requests (Unmarshal_table two_today) two_today_store))
     = [0,0,0,0,0,0,0,0,0,0,0,0,0,1]"
  unfolding tally_total_list tally_unique_list upt_14 stored_two_today
  by (simp_all add: counted_into_two_today) (simp_all add: request_at_def)

lemma ChartData_two_today:
  "ChartData Marshal_ints (Unmarshal_table two_today) noon_utc two_today_store =
     Some \<lparr>result = Some \<lparr>chart_dates = labels noon_utc,
                           chart_unique = ''[0,0,0,0,0,0,0,0,0,0,0,0,0,1]'',
                           chart_total = ''[0,0,0,0,0,0,0,0,0,0,0,0,0,2]'',
                           chart_from = labels noon_utc ! 0,
                           chart_to = labels noon_utc ! 13\<rparr>,
           err = None,
           logged = [''Error decoding json from analytics db: invalid character'']\<rparr>"
  unfolding ChartData_eq
  unfolding tally_two_today Marshal_two_today
  unfolding stored_two_today
  by (simp add: two_today_store_def open_store_def)

theorem ChartData_unique_counts_witness:
  "\<exists>u t. Marshal_ints u = Inr ''[0,0,0,0,0,0,0,0,0,0,0,0,0,1]''
       \<and> Marshal_ints t = Inr ''[0,0,0,0,0,0,0,0,0,0,0,0,0,2]''
       \<and> length u = 14 \<and> length t = 14
       \<and> u ! 13 \<le> t ! 13 \<and> t ! 13 = 2 \<and> u ! 13 = 1"
proof -
  from ChartData_unique_counts [OF ChartData_two_today]
  obtain u t where ut: "Marshal_ints u = Inr ''[0,0,0,0,0,0,0,0,0,0,0,0,0,1]''"
      "Marshal_ints t = Inr ''[0,0,0,0,0,0,0,0,0,0,0,0,0,2]''" "length u = 14" "length t = 14"
    and all: "\<forall>j<14. u ! j \<le> t ! j
       \<and> t ! j = length (filter (\<lambda>r. j \<in> set (counted_into (window noon_utc) r))
                     (stored_requests (Unmarshal_table two_today) two_today_store))
       \<and> u ! j = card (RemoteAddr `
                     {r \<in> set (stored_requests (Unmarshal_table two_today) two_today_store).
                        j \<in> set (counted_into (window noon_utc) r)})"
    by auto
  have "(13 :: nat) < 14" by simp
  with all have 13: "u ! 13 \<le> t ! 13"
    "t ! 13 = length (filter (\<lambda>r. 13 \<in> set (counted_into (window noon_utc) r))
                     (stored_requests (Unmarshal_table two_today) two_today_store))"
    "u ! 13 = card (RemoteAddr `
                     {r \<in> set (stored_requests (Unmarshal_table two_today) two_today_store).
                        13 \<in> set (counted_into (window noon_utc) r)})"
    by blast+
  have t13: "t ! 13 = 2"
    unfolding 13(2) stored_two_today by (simp add: counted_into_two_today)
  have "total (tally (window noon_utc) (stored_requests (Unmarshal_table two_today) two_today_store)) ! 13 = 2"
    "unique (tally (window noon_utc) (stored_requests (Unmarshal_table two_today) two_today_store)) ! 13 = 1"
    unfolding tally_two_today by simp_all
  then have u13: "u ! 13 = 1"
    unfolding 13(3) using tally_unique [of 13 "window noon_utc"] by simp
  from ut 13(1) t13 u13 show ?thesis by blast
qed

subsection \<open>Entries that do not decode\<close>

text \<open>
  Claim C7.  When the read transaction begins, the call returns whatever the stored
  values are.  An entry whose value does not decode is logged, once, in the order of the
  scan, and the scan goes on: map and error are those of the same call on the store
  without the entries that do not decode, a call that logs nothing.
\<close>

theorem ChartData_skips_undecodable:
  assumes "view_err store = None"
  shows "\<exists>rep rep'.
           ChartData jm ju now store = Some rep
         \<and> ChartData jm ju now
              (store\<lparr>requests_bucket :=
                       filter (\<lambda>kv. \<not> isl (ju (snd kv))) (requests_bucket store)\<rparr>) = Some rep'
         \<and> result rep = result rep' \<and> err rep = err rep'
         \<and> logged rep' = []
         \<and> logged rep = map (\<lambda>kv. log_line (projl (ju (snd kv))))
                           (filter (\<lambda>kv. isl (ju (snd kv))) (requests_bucket store))"
proof -
  let ?store' = "store\<lparr>requests_bucket :=
                       filter (\<lambda>kv. \<not> isl (ju (snd kv))) (requests_bucket store)\<rparr>"
  have rs: "stored_requests ju ?store' = stored_requests ju store"
    by (simp add: stored_requests_eq)
  have lg: "decode_log ju ?store' = []"
    by (simp add: decode_log_eq)
  have v: "view_err ?store' = None" using assms by simp
  show ?thesis
    unfolding ChartData_eq rs lg v assms decode_log_eq [symmetric]
    by (simp split: sum.split)
qed

theorem ChartData_skips_undecodable_witness:
  "\<exists>rep rep'.
     ChartData Marshal_ints (Unmarshal_table two_today) noon_utc two_today_store = Some rep
   \<and> ChartData Marshal_ints (Unmarshal_table two_today) noon_utc (open_store [''a'', ''b'']) = Some rep'
   \<and> result rep = result rep' \<and> err rep = None
   \<and> logged rep' = []
   \<and> logged rep = [''Error decoding json from analytics db: invalid character'']"
proof -
  have "view_err two_today_store = None" by (simp add: two_today_store_def open_store_def)
  from ChartData_skips_undecodable [OF this, of Marshal_ints "Unmarshal_table two_today" noon_utc]
  show ?thesis
    unfolding ChartData_two_today
    by (auto simp: two_today_store_def open_store_def Unmarshal_table_def two_today_def log_line_def)
qed

subsection \<open>Requests older than the window\<close>

lemma tally_drop_uncounted:
  assumes "counted_into times' r = []"
  shows "tally times' (pre @ r # post) = tally times' (pre @ post)"
  by (simp add: tally_def assms)

text \<open>
  Claim C3.  A stored request whose instant (\<open>time.Unix(Timestamp/1000, 0)\<close>, what the
  loop compares) is before the oldest boundary passes through the inner loop without a
  change to any array and without an index out of range, at \<open>j = 0\<close>; it is counted into
  no bucket; and the call returns the same with the entry in the store or out of it.
  Whenever the boundary is after 1970, or the timestamp is not negative or is a whole
  number of seconds as \<open>Record\<close> writes it, the instant is before the boundary exactly
  when the timestamp is of fewer milliseconds than the boundary (\<open>ts_of_before_iff\<close>).
\<close>

theorem ChartData_excludes_older:
  assumes "Before (ts_of r) (window now ! 0)" "ju v = Inr r"
  shows "check_request (window now) (ts_of r) r [0..<length (window now)] c = Some c
       \<and> counted_into (window now) r = []
       \<and> ChartData jm ju now (store\<lparr>requests_bucket := kvs @ (k, v) # kvs'\<rparr>)
           = ChartData jm ju now (store\<lparr>requests_bucket := kvs @ kvs'\<rparr>)"
proof -
  have none: "counted_into (window now) r = []"
    by (rule counted_into_old [OF assms(1)])
  have "[0..<length (window now)] = 0 # [1..<14]" by (simp add: upt_conv_Cons)
  moreover have "\<not> Equal (ts_of r) (window now ! 0)" "\<not> After (ts_of r) (window now ! 0)"
    using assms(1) by (simp_all add: Before_def Equal_def After_def)
  ultimately have loop: "check_request (window now) (ts_of r) r [0..<length (window now)] c = Some c"
    using assms(1) by simp
  have rs: "stored_requests ju (store\<lparr>requests_bucket := kvs @ (k, v) # kvs'\<rparr>)
      = stored_requests ju (store\<lparr>requests_bucket := kvs\<rparr>) @ r
          # stored_requests ju (store\<lparr>requests_bucket := kvs'\<rparr>)"
    "stored_requests ju (store\<lparr>requests_bucket := kvs @ kvs'\<rparr>)
      = stored_requests ju (store\<lparr>requests_bucket := kvs\<rparr>)
          @ stored_requests ju (store\<lparr>requests_bucket := kvs'\<rparr>)"
    by (simp_all add: stored_requests_eq assms(2))
  have lg: "decode_log ju (store\<lparr>requests_bucket := kvs @ (k, v) # kvs'\<rparr>)
      = decode_log ju (store\<lparr>requests_bucket := kvs @ kvs'\<rparr>)"
    by (simp add: decode_log_eq assms(2))
  have "ChartData jm ju now (store\<lparr>requests_bucket := kvs @ (k, v) # kvs'\<rparr>)
           = ChartData jm ju now (store\<lparr>requests_bucket := kvs @ kvs'\<rparr>)"
    unfolding ChartData_eq rs lg tally_drop_uncounted [OF none] by simp
  with none loop show ?thesis by simp
qed

lemma counted_into_too_old:
  "counted_into (window noon_utc) (request_at addr 1792360000000) = []"
proof -
  have "ts_of (request_at addr 1792360000000) = \<lparr>sec = 1792360000, offset = 0\<rparr>"
    using ts_of_request_at [of 1792360000 addr] by simp
  then show ?thesis
    by (intro counted_into_old) (simp add: window_noon_utc Before_def)
qed

theorem ChartData_excludes_older_witness:
  "Before (ts_of (request_at ''10.0.0.9:40000'' 1792360000000)) (window noon_utc ! 0)
   \<and> check_request (window noon_utc) (ts_of (request_at ''10.0.0.9:40000'' 1792360000000))
        (request_at ''10.0.0.9:40000'' 1792360000000) [0..<length (window noon_utc)] counters0
       = Some counters0
   \<and> ChartData Marshal_ints
        (Unmarshal_table ((''old'', request_at ''10.0.0.9:40000'' 1792360000000) # two_today))
        noon_utc (open_store [''a'', ''old'', ''b''])
     = ChartData Marshal_ints
        (Unmarshal_table ((''old'', request_at ''10.0.0.9:40000'' 1792360000000) # two_today))
        noon_utc (open_store [''a'', ''b''])"
proof -
  have ts: "ts_of (request_at ''10.0.0.9:40000'' 1792360000000) = \<lparr>sec = 1792360000, offset = 0\<rparr>"
    using ts_of_request_at [of 1792360000 "''10.0.0.9:40000''"] by simp
  have old: "Before (ts_of (request_at ''10.0.0.9:40000'' 1792360000000)) (window noon_utc ! 0)"
    unfolding ts by (simp add: window_noon_utc Before_def)
  have dec: "Unmarshal_table ((''old'', request_at ''10.0.0.9:40000'' 1792360000000) # two_today)
               ''old'' = Inr (request_at ''10.0.0.9:40000'' 1792360000000)"
    by (simp add: Unmarshal_table_def)
  from ChartData_excludes_older [where r = "request_at ''10.0.0.9:40000'' 1792360000000"
      and now = noon_utc and v = "''old''" and c = counters0 and jm = Marshal_ints
      and ju = "Unmarshal_table ((''old'', request_at ''10.0.0.9:40000'' 1792360000000) # two_today)"
      and store = "open_store []" and kvs = "[(''key of a'', ''a'')]" and k = "''key of old''"
      and kvs' = "[(''key of b'', ''b'')]", OF old dec] old
  show ?thesis by (simp add: open_store_def)
qed

subsection \<open>One request at each boundary\<close>













subsection \<open>Today, the boundaries and the labels\<close>











subsection \<open>A day without requests\<close>

lemma counted_into_day_11:
  "counted_into (window noon_utc) (request_at addr 1793322000000) = [11, 12]"
proof -
  have ts: "ts_of (request_at addr 1793322000000) = \<lparr>sec = 1793322000, offset = 0\<rparr>"
    using ts_of_request_at [of 1793322000 addr] by simp
  have "counted_into (window noon_utc) (request_at addr 1793322000000) = [12 - 1..<13]"
    by (rule counted_into_between) (simp_all add: ts window_noon_utc Before_def)
  also have "\<dots> = [11, 12]" by code_simp
  finally show ?thesis .
qed

lemma tally_day_11:
  "total (tally (window noon_utc) [request_at addr 1793322000000]) = [0,0,0,0,0,0,0,0,0,0,0,1,1,0]"
  "unique (tally (window noon_utc) [request_at addr 1793322000000]) = [0,0,0,0,0,0,0,0,0,0,0,1,1,0]"
  unfolding tally_total_list tally_unique_list upt_14
  by (simp_all add: counted_into_day_11)

lemma Marshal_day_11:
  "Marshal_ints [0,0,0,0,0,0,0,0,0,0,0,1,1,0] = Inr ''[0,0,0,0,0,0,0,0,0,0,0,1,1,0]''"
  by code_simp

text \<open>
  Claim C2 asks for fourteen entries in each series, with zero for a day without
  requests.  The series do have fourteen entries (\<open>tally_lengths\<close>) and
  are all zero for a store without requests (\<open>ChartData_empty_store\<close>).  But a day
  without requests is not always zero.  Here the store holds one request, made on
  30 October at 01:00 UTC, before the boundary of 31 October; the call of 1 November
  reports one request, from one address, for 30 October and again for 31 October.
\<close>

theorem ChartData_empty_day_not_zero:
  "\<exists>rep ch.
     ChartData Marshal_ints (Unmarshal_table [(''v'', request_at ''10.0.0.7:51324'' 1793322000000)])
       noon_utc (open_store [''v'']) = Some rep
     \<and> result rep = Some ch
     \<and> stored_requests (Unmarshal_table [(''v'', request_at ''10.0.0.7:51324'' 1793322000000)])
          (open_store [''v'']) = [request_at ''10.0.0.7:51324'' 1793322000000]
     \<and> Before (window noon_utc ! 11) (ts_of (request_at ''10.0.0.7:51324'' 1793322000000))
     \<and> Before (ts_of (request_at ''10.0.0.7:51324'' 1793322000000)) (window noon_utc ! 12)
     \<and> chart_total ch = ''[0,0,0,0,0,0,0,0,0,0,0,1,1,0]''
     \<and> chart_unique ch = ''[0,0,0,0,0,0,0,0,0,0,0,1,1,0]''"
proof -
  have ts: "ts_of (request_at ''10.0.0.7:51324'' 1793322000000) = \<lparr>sec = 1793322000, offset = 0\<rparr>"
    using ts_of_request_at [of 1793322000 "''10.0.0.7:51324''"] by simp
  show ?thesis
    unfolding ChartData_eq stored_one tally_day_11 Marshal_day_11
    by (simp add: open_store_def ts window_noon_utc Before_def)
qed

subsection \<open>One request at each UTC midnight, away from UTC\<close>








end
